theory Spec2Isabelle
  imports Main "HOL-Library.Multiset"
begin

section \<open>Huffman coding of a text file: the data model of \<open>Main.py\<close>\<close>

text \<open>
  The development follows the class \<open>HuffmanCoding\<close> of \<open>Main.py\<close> method by method.
  Python strings are \<open>string\<close> (a list of \<open>char\<close>, so symbols are the code points
  below 256), Python integers are \<open>int\<close>, list positions are \<open>nat\<close>. The exceptions
  the code can raise are values of \<open>error\<close>; a method that can raise returns
  \<open>error + 'a\<close>, with \<open>Inl\<close> the exception.
\<close>

datatype error = IndexError | KeyError | ValueError | RecursionError

text \<open>
  \<open>HeapNode\<close>: the fields \<open>char\<close>, \<open>freq\<close>, \<open>left\<close>, \<open>right\<close>; Python's \<open>None\<close> in
  \<open>char\<close>, \<open>left\<close> and \<open>right\<close> is \<open>None\<close> of the option type.
\<close>

datatype HeapNode =
  HeapNode (char: "char option") (freq: int) (left: "HeapNode option") (right: "HeapNode option")

text \<open>\<open>HeapNode.__lt__\<close>: nodes are ordered by frequency alone.\<close>

definition node_lt :: "HeapNode \<Rightarrow> HeapNode \<Rightarrow> bool" where
  "node_lt self other = (freq self < freq other)"

text \<open>
  The object state set up by \<open>__init__\<close>: the heap, the code table and the reverse
  mapping (the path is only used to open files).
\<close>

record HuffmanCoding =
  heap :: "HeapNode list"
  codes :: "char \<rightharpoonup> string"
  reverse_mapping :: "string \<rightharpoonup> char"

definition init :: HuffmanCoding where
  "init = \<lparr>heap = [], codes = Map.empty, reverse_mapping = Map.empty\<rparr>"

section \<open>Bit strings\<close>

text \<open>
  A bit string is a string of the characters \<open>0\<close> and \<open>1\<close>.
\<close>

definition is_bit :: "char \<Rightarrow> bool" where
  "is_bit c = (c = CHR ''0'' \<or> c = CHR ''1'')"

definition bit_string :: "string \<Rightarrow> bool" where
  "bit_string s = list_all is_bit s"

text \<open>
  \<open>int(s, 2)\<close> on a string, as CPython computes it. Every character from code point
  127 on is first replaced: a space for the two that are whitespace (133 and 160);
  any other makes the string invalid. Then whitespace (code points 9 to 13 and 32)
  is skipped at both ends; what is left is an optional sign, an optional prefix \<open>0b\<close>
  or \<open>0B\<close> that one underscore may follow, and binary digits, at least one, with
  single underscores allowed between two digits. The value is read most significant
  digit first. Anything else raises \<open>ValueError\<close>.
\<close>

definition digit_val :: "char \<Rightarrow> int" where
  "digit_val c = (if c = CHR ''1'' then 1 else 0)"

fun int_digits :: "int \<Rightarrow> string \<Rightarrow> int" where
  "int_digits acc [] = acc"
| "int_digits acc (c # cs) = int_digits (2 * acc + digit_val c) cs"

definition c_isspace :: "char \<Rightarrow> bool" where
  "c_isspace c = (let n = (of_char c :: nat) in (9 \<le> n \<and> n \<le> 13) \<or> n = 32)"

definition to_ascii :: "char \<Rightarrow> char option" where
  "to_ascii c =
     (let n = (of_char c :: nat)
      in if n < 127 then Some c
         else if n = 133 \<or> n = 160 then Some CHR '' ''
         else None)"

fun skip_sign :: "string \<Rightarrow> int \<times> string" where
  "skip_sign [] = (1, [])"
| "skip_sign (c # cs) =
     (if c = CHR ''+'' then (1, cs) else if c = CHR ''-'' then (- 1, cs) else (1, c # cs))"

fun skip_underscore :: "string \<Rightarrow> string" where
  "skip_underscore [] = []"
| "skip_underscore (c # cs) = (if c = CHR ''_'' then cs else c # cs)"

fun skip_0b :: "string \<Rightarrow> string" where
  "skip_0b (c # x # cs) =
     (if c = CHR ''0'' \<and> (x = CHR ''b'' \<or> x = CHR ''B'') then skip_underscore cs else c # x # cs)"
| "skip_0b cs = cs"

fun digits_ok :: "string \<Rightarrow> bool" where
  "digits_ok [] = False"
| "digits_ok [c] = is_bit c"
| "digits_ok (c # d # cs) =
     (is_bit c \<and> (if d = CHR ''_'' then digits_ok cs else digits_ok (d # cs)))"

definition int_base2 :: "string \<Rightarrow> error + int" where
  "int_base2 s =
     (if list_all (\<lambda>c. to_ascii c \<noteq> None) s then
        (let a = map (\<lambda>c. the (to_ascii c)) s;
             a = dropWhile c_isspace a;
             a = rev (dropWhile c_isspace (rev a));
             (sign, a) = skip_sign a;
             a = skip_0b a
         in if digits_ok a
            then Inr (sign * int_digits 0 (filter (\<lambda>c. c \<noteq> CHR ''_'') a))
            else Inl ValueError)
      else Inl ValueError)"

text \<open>
  The digits of \<open>bin(n)\<close> and of the \<open>b\<close> format for a natural number: no leading
  zeros, \<open>0\<close> for zero.
\<close>

fun bin_digits :: "nat \<Rightarrow> string" where
  "bin_digits n =
     (if n < 2 then [if n = 0 then CHR ''0'' else CHR ''1'']
      else bin_digits (n div 2) @ [if n mod 2 = 0 then CHR ''0'' else CHR ''1''])"

declare bin_digits.simps [simp del]

text \<open>\<open>s.rjust(width, fill)\<close>: fill on the left up to the width, never truncate.\<close>

definition rjust :: "nat \<Rightarrow> char \<Rightarrow> string \<Rightarrow> string" where
  "rjust width fill s = replicate (width - length s) fill @ s"

text \<open>
  \<open>'{0:08b}'.format(n)\<close>: binary digits, zero-filled to a width of eight, the sign
  of a negative number before the zeros.
\<close>

definition format_08b :: "int \<Rightarrow> string" where
  "format_08b n =
     (if n < 0 then CHR ''-'' # rjust 7 CHR ''0'' (bin_digits (nat (- n)))
      else rjust 8 CHR ''0'' (bin_digits (nat n)))"

text \<open>\<open>bin(n)\<close>: the digits after the prefix \<open>0b\<close>, a sign first for a negative number.\<close>

definition bin :: "int \<Rightarrow> string" where
  "bin n = (if n < 0 then ''-0b'' @ bin_digits (nat (- n)) else ''0b'' @ bin_digits (nat n))"

text \<open>
  The slice \<open>s[:j]\<close>: a negative \<open>j\<close> counts from the end, and the bounds are clamped
  to the string.
\<close>

definition slice_to :: "int \<Rightarrow> 'a list \<Rightarrow> 'a list" where
  "slice_to j s = (if j < 0 then take (nat (int (length s) + j)) s else take (nat j) s)"

section \<open>Padding\<close>

text \<open>
  \<open>pad_encoded_text\<close>: the loop \<open>for i in range(extra_padding): encoded_text += '0'\<close>
  is \<open>append_zeros\<close>, one character for each iteration.
\<close>

fun append_zeros :: "nat \<Rightarrow> string \<Rightarrow> string" where
  "append_zeros 0 encoded_text = encoded_text"
| "append_zeros (Suc i) encoded_text = append_zeros i (encoded_text @ ''0'')"

definition extra_padding_of :: "string \<Rightarrow> int" where
  "extra_padding_of encoded_text = 8 - int (length encoded_text) mod 8"

definition pad_encoded_text :: "string \<Rightarrow> string" where
  "pad_encoded_text encoded_text =
     (let extra_padding = extra_padding_of encoded_text;
          encoded_text = append_zeros (nat extra_padding) encoded_text;
          padded_info = format_08b extra_padding
      in padded_info @ encoded_text)"

text \<open>
  \<open>remove_padding\<close>: the header is the first eight characters; the rest is cut by
  the slice \<open>[:-1 * extra_padding]\<close>.
\<close>

definition remove_padding :: "string \<Rightarrow> error + string" where
  "remove_padding bs =
     (let padded_info = take 8 bs in
      case int_base2 padded_info of
        Inl e \<Rightarrow> Inl e
      | Inr extra_padding \<Rightarrow>
          (let bs = drop 8 bs;
               encoded_text = slice_to (- 1 * extra_padding) bs
           in Inr encoded_text))"

section \<open>The priority queue: Python's \<open>heapq\<close> on a list\<close>

text \<open>
  \<open>heapq\<close> keeps a binary heap in a list; the children of position \<open>k\<close> are at
  \<open>2k + 1\<close> and \<open>2k + 2\<close>, and items are compared with \<open>__lt__\<close> only. The four
  functions below follow \<open>_siftdown\<close>, \<open>_siftup\<close>, \<open>heappush\<close> and \<open>heappop\<close> of the
  standard library line by line. Every position they read is inside the list.
\<close>

function siftdown_loop :: "HeapNode list \<Rightarrow> HeapNode \<Rightarrow> nat \<Rightarrow> nat \<Rightarrow> HeapNode list" where
  "siftdown_loop h newitem startpos pos =
     (if pos > startpos then
        (let parentpos = (pos - 1) div 2;
             parent = h ! parentpos
         in if node_lt newitem parent
            then siftdown_loop (h[pos := parent]) newitem startpos parentpos
            else h[pos := newitem])
      else h[pos := newitem])"
  by pat_completeness auto
termination
  by (relation "measure (\<lambda>(h, newitem, startpos, pos). pos)") auto

declare siftdown_loop.simps [simp del]

definition siftdown :: "HeapNode list \<Rightarrow> nat \<Rightarrow> nat \<Rightarrow> HeapNode list" where
  "siftdown h startpos pos = siftdown_loop h (h ! pos) startpos pos"

function siftup_loop :: "HeapNode list \<Rightarrow> nat \<Rightarrow> HeapNode list \<times> nat" where
  "siftup_loop h pos =
     (let endpos = length h;
          childpos = 2 * pos + 1
      in if childpos < endpos then
           (let rightpos = childpos + 1;
                childpos = (if rightpos < endpos \<and> \<not> node_lt (h ! childpos) (h ! rightpos)
                            then rightpos else childpos)
            in siftup_loop (h[pos := h ! childpos]) childpos)
         else (h, pos))"
  by pat_completeness auto
termination
  by (relation "measure (\<lambda>(h, pos). length h - pos)") auto

declare siftup_loop.simps [simp del]

definition siftup :: "HeapNode list \<Rightarrow> nat \<Rightarrow> HeapNode list" where
  "siftup h pos =
     (let startpos = pos;
          newitem = h ! pos;
          (h, pos) = siftup_loop h pos
      in siftdown (h[pos := newitem]) startpos pos)"

definition heappush :: "HeapNode list \<Rightarrow> HeapNode \<Rightarrow> HeapNode list" where
  "heappush h item = siftdown (h @ [item]) 0 (length h)"

text \<open>\<open>heappop\<close> raises \<open>IndexError\<close> on the empty list (from \<open>heap.pop()\<close>).\<close>

definition heappop :: "HeapNode list \<Rightarrow> error + HeapNode \<times> HeapNode list" where
  "heappop h =
     (if h = [] then Inl IndexError
      else (let lastelt = last h;
                h = butlast h
            in if h \<noteq> [] then
                 (let returnitem = h ! 0;
                      h = siftup (h[0 := lastelt]) 0
                  in Inr (returnitem, h))
               else Inr (lastelt, h)))"

subsection \<open>The heap operations keep the items\<close>

lemma mset_move_hole:
  "i < length h \<Longrightarrow> j < length h \<Longrightarrow> i \<noteq> j \<Longrightarrow>
   mset (h[i := h ! j, j := x]) = mset (h[i := x])"
  by (simp add: mset_update)

lemma length_siftdown_loop [simp]: "length (siftdown_loop h x s p) = length h"
  by (induction h x s p rule: siftdown_loop.induct)
     (subst siftdown_loop.simps, simp add: Let_def)

lemma mset_siftdown_loop:
  "p < length h \<Longrightarrow> mset (siftdown_loop h x s p) = mset (h[p := x])"
proof (induction h x s p rule: siftdown_loop.induct)
  case (1 h newitem startpos pos)
  show ?case
  proof (cases "pos > startpos \<and> node_lt newitem (h ! ((pos - 1) div 2))")
    case True
    let ?pp = "(pos - 1) div 2"
    have pp: "?pp < pos" using True by auto
    have lt: "?pp < length h" using pp "1.prems" by simp
    have "mset (siftdown_loop h newitem startpos pos)
          = mset (siftdown_loop (h[pos := h ! ?pp]) newitem startpos ?pp)"
      using True by (subst siftdown_loop.simps) (simp add: Let_def)
    also have "\<dots> = mset (h[pos := h ! ?pp, ?pp := newitem])"
      using "1.IH" [of ?pp "h ! ?pp"] True lt by simp
    also have "\<dots> = mset (h[pos := newitem])"
      using mset_move_hole [of pos h ?pp newitem] pp lt "1.prems" by simp
    finally show ?thesis .
  next
    case False
    then show ?thesis by (subst siftdown_loop.simps) (auto simp add: Let_def)
  qed
qed

lemma length_siftup_loop [simp]: "length (fst (siftup_loop h p)) = length h"
  by (induction h p rule: siftup_loop.induct)
     (subst siftup_loop.simps, simp add: Let_def)

lemma siftup_loop_pos: "p < length h \<Longrightarrow> snd (siftup_loop h p) < length h"
  by (induction h p rule: siftup_loop.induct)
     (subst siftup_loop.simps, simp add: Let_def)

lemma mset_siftup_loop:
  "p < length h \<Longrightarrow> mset ((fst (siftup_loop h p))[snd (siftup_loop h p) := x]) = mset (h[p := x])"
proof (induction h p rule: siftup_loop.induct)
  case (1 h pos)
  show ?case
  proof (cases "2 * pos + 1 < length h")
    case True
    define c where "c = (if 2 * pos + 1 + 1 < length h \<and> \<not> node_lt (h ! (2 * pos + 1)) (h ! (2 * pos + 1 + 1))
                            then 2 * pos + 1 + 1 else 2 * pos + 1)"
    have c: "c < length h" "pos < c" using True by (auto simp: c_def)
    have step: "siftup_loop h pos = siftup_loop (h[pos := h ! c]) c"
      using True by (subst siftup_loop.simps) (simp add: Let_def c_def)
    have "c < length (h[pos := h ! c])" using c by simp
    from "1.IH" [OF refl refl True refl c_def this]
    have "mset ((fst (siftup_loop (h[pos := h ! c]) c))[snd (siftup_loop (h[pos := h ! c]) c) := x])
          = mset (h[pos := h ! c, c := x])" .
    also have "\<dots> = mset (h[pos := x])"
      using mset_move_hole [of pos h c x] c "1.prems" by simp
    finally show ?thesis by (simp add: step)
  next
    case False
    then show ?thesis by (subst (1 2) siftup_loop.simps) (simp add: Let_def)
  qed
qed


lemma mset_siftdown: "p < length h \<Longrightarrow> mset (siftdown h s p) = mset h"
  by (simp add: siftdown_def mset_siftdown_loop)

lemma length_siftdown [simp]: "length (siftdown h s p) = length h"
  by (simp add: siftdown_def)

lemma mset_siftup: "p < length h \<Longrightarrow> mset (siftup h p) = mset h"
proof -
  assume p: "p < length h"
  obtain h' p' where r: "siftup_loop h p = (h', p')" by (cases "siftup_loop h p")
  have len: "length h' = length h" using length_siftup_loop [of h p] r by simp
  have p': "p' < length h'" using siftup_loop_pos [OF p] r len by simp
  have "mset (h'[p' := h ! p]) = mset (h[p := h ! p])"
    using mset_siftup_loop [OF p, of "h ! p"] r by simp
  then show ?thesis using p' by (simp add: siftup_def r mset_siftdown)
qed

lemma mset_heappush: "mset (heappush h item) = add_mset item (mset h)"
  by (simp add: heappush_def mset_siftdown)

lemma length_heappush [simp]: "length (heappush h item) = Suc (length h)"
  by (simp add: heappush_def)

lemma heappop_empty: "heappop [] = Inl IndexError"
  by (simp add: heappop_def)

lemma heappop_nonempty:
  assumes "h \<noteq> []"
  shows "\<exists>x h'. heappop h = Inr (x, h') \<and> mset h = add_mset x (mset h')"
proof (cases "butlast h = []")
  case True
  then have "heappop h = Inr (last h, [])" using assms by (simp add: heappop_def)
  moreover have "h = [last h]" using True assms by (metis append_butlast_last_id append_Nil)
  then have "mset h = add_mset (last h) (mset [])" by (metis mset.simps add_mset_commute mset_single_iff_right)
  ultimately show ?thesis by auto
next
  case False
  let ?b = "butlast h"
  have pop: "heappop h = Inr (?b ! 0, siftup (?b[0 := last h]) 0)"
    using False assms by (simp add: heappop_def Let_def)
  have bl: "0 < length (?b[0 := last h])"
    by (metis False length_greater_0_conv length_list_update)
  have "mset (siftup (?b[0 := last h]) 0) = mset (?b[0 := last h])"
    using bl by (rule mset_siftup)
  also have "\<dots> = add_mset (last h) (mset ?b - {#?b ! 0#})"
    using bl by (simp only: length_list_update mset_update)
  finally have m: "mset (siftup (?b[0 := last h]) 0) = add_mset (last h) (mset ?b - {#?b ! 0#})" .
  have "mset h = add_mset (last h) (mset ?b)"
    using assms by (metis append_butlast_last_id mset_append union_mset_add_mset_right add.right_neutral mset.simps)
  moreover have "?b ! 0 \<in># mset ?b"
    by (metis False length_greater_0_conv nth_mem_mset)
  ultimately have "mset h = add_mset (?b ! 0) (add_mset (last h) (mset ?b - {#?b ! 0#}))"
    by (simp add: add_mset_commute)
  with pop m show ?thesis by simp
qed

lemma heappop_length:
  assumes "heappop h = Inr (x, h')"
  shows "length h = Suc (length h')"
proof -
  have "h \<noteq> []" using assms by (auto simp: heappop_def)
  from heappop_nonempty [OF this] assms have "mset h = add_mset x (mset h')" by auto
  then have "size (mset h) = size (add_mset x (mset h'))" by simp
  then show ?thesis by simp
qed

section \<open>Frequencies, heap and tree\<close>

text \<open>
  A Python \<open>dict\<close> whose iteration order matters is an association list in insertion
  order: \<open>d[k] = v\<close> replaces the value of an existing key in place and appends a new
  key at the end.
\<close>

fun dict_set :: "'k \<Rightarrow> 'v \<Rightarrow> ('k \<times> 'v) list \<Rightarrow> ('k \<times> 'v) list" where
  "dict_set k v [] = [(k, v)]"
| "dict_set k v (p # d) = (if fst p = k then (k, v) # d else p # dict_set k v d)"

text \<open>
  One iteration of the loop of \<open>make_frequency_dict\<close>. The read \<open>frequency[ch]\<close> of
  \<open>frequency[ch] += 1\<close> finds the key, which is present by then.
\<close>

definition count_char :: "char \<Rightarrow> (char \<times> int) list \<Rightarrow> (char \<times> int) list" where
  "count_char ch frequency =
     (let frequency = (if map_of frequency ch = None then dict_set ch 0 frequency else frequency)
      in dict_set ch (the (map_of frequency ch) + 1) frequency)"

definition make_frequency_dict :: "string \<Rightarrow> (char \<times> int) list" where
  "make_frequency_dict text = fold count_char text []"

text \<open>\<open>make_heap\<close>: one leaf for each key, pushed in the order of the dictionary.\<close>

definition push_key :: "(char \<times> int) list \<Rightarrow> char \<Rightarrow> HuffmanCoding \<Rightarrow> HuffmanCoding" where
  "push_key frequency key self =
     (let node = HeapNode (Some key) (the (map_of frequency key)) None None
      in self\<lparr>heap := heappush (heap self) node\<rparr>)"

definition make_heap :: "HuffmanCoding \<Rightarrow> (char \<times> int) list \<Rightarrow> HuffmanCoding" where
  "make_heap self frequency = fold (push_key frequency) (map fst frequency) self"

text \<open>
  \<open>merge_codes\<close>: while more than one node is on the heap, the two smallest are
  popped and their parent is pushed. The loop ends because each round takes one node
  off the heap.
\<close>

function merge_codes :: "HuffmanCoding \<Rightarrow> error + HuffmanCoding" where
  "merge_codes self =
     (if length (heap self) > 1 then
        (case heappop (heap self) of
           Inl e \<Rightarrow> Inl e
         | Inr (node1, h1) \<Rightarrow>
             (case heappop h1 of
                Inl e \<Rightarrow> Inl e
              | Inr (node2, h2) \<Rightarrow>
                  (let merged = HeapNode None (freq node1 + freq node2) (Some node1) (Some node2)
                   in merge_codes (self\<lparr>heap := heappush h2 merged\<rparr>))))
      else Inr self)"
  by pat_completeness auto
termination
proof (relation "measure (\<lambda>self. length (heap self))", goal_cases)
  case 1
  show ?case by simp
next
  case (2 self x2 node1 h1 x2a node2 h2 merged)
  then have "length (heap self) = Suc (length h1)" and "length h1 = Suc (length h2)"
    by (auto dest: heappop_length)
  then show ?case by simp
qed

declare merge_codes.simps [simp del]

section \<open>The code table\<close>

text \<open>
  \<open>make_codes_helper\<close> is recursive, and Python bounds the depth of recursion: a
  call that would exceed the interpreter's recursion limit raises \<open>RecursionError\<close>.
  The first argument is the number of nested calls the limit still allows. The second
  recursive call of the source is on \<open>node\<close> itself, not on \<open>node.right\<close>. A
  \<open>HeapNode\<close> is never equal to \<open>None\<close> (\<open>__eq__\<close> returns \<open>False\<close> for it), and
  \<open>node.char != None\<close> holds exactly for the leaves, whose \<open>char\<close> is a character;
  \<open>record_code\<close> is the body of that \<open>if\<close>, the two dictionary updates.
\<close>

definition record_code :: "HeapNode \<Rightarrow> string \<Rightarrow> HuffmanCoding \<Rightarrow> HuffmanCoding" where
  "record_code node current_code self =
     (case char node of
        None \<Rightarrow> self
      | Some c \<Rightarrow> self\<lparr>codes := (codes self)(c \<mapsto> current_code),
                         reverse_mapping := (reverse_mapping self)(current_code \<mapsto> c)\<rparr>)"

fun make_codes_helper :: "nat \<Rightarrow> HuffmanCoding \<Rightarrow> HeapNode option \<Rightarrow> string \<Rightarrow> error + HuffmanCoding" where
  "make_codes_helper 0 self node current_code = Inl RecursionError"
| "make_codes_helper (Suc depth) self None current_code = Inr self"
| "make_codes_helper (Suc depth) self (Some node) current_code =
     (let self = record_code node current_code self
      in case make_codes_helper depth self (left node) (current_code @ ''0'') of
           Inl e \<Rightarrow> Inl e
         | Inr self \<Rightarrow> make_codes_helper depth self (Some node) (current_code @ ''1''))"

definition make_codes :: "nat \<Rightarrow> HuffmanCoding \<Rightarrow> error + HuffmanCoding" where
  "make_codes depth self =
     (case heappop (heap self) of
        Inl e \<Rightarrow> Inl e
      | Inr (root, h) \<Rightarrow>
          (let self = self\<lparr>heap := h\<rparr>;
               current_code = []
           in make_codes_helper depth self (Some root) current_code))"

section \<open>Encoding\<close>

text \<open>
  \<open>get_encoded_text\<close>: \<open>self.codes[character]\<close> raises \<open>KeyError\<close> for a character
  that has no code.
\<close>

fun get_encoded_text_loop :: "HuffmanCoding \<Rightarrow> string \<Rightarrow> string \<Rightarrow> error + string" where
  "get_encoded_text_loop self encoded_text [] = Inr encoded_text"
| "get_encoded_text_loop self encoded_text (character # text) =
     (case codes self character of
        None \<Rightarrow> Inl KeyError
      | Some code \<Rightarrow> get_encoded_text_loop self (encoded_text @ code) text)"

definition get_encoded_text :: "HuffmanCoding \<Rightarrow> string \<Rightarrow> error + string" where
  "get_encoded_text self text = get_encoded_text_loop self [] text"

text \<open>
  \<open>get_byte_array\<close>: the positions \<open>range(0, len(s), 8)\<close>; \<open>bytearray.append\<close> raises
  \<open>ValueError\<close> for a value outside \<open>range(256)\<close>.
\<close>

function get_byte_array_loop :: "string \<Rightarrow> nat \<Rightarrow> int list \<Rightarrow> error + int list" where
  "get_byte_array_loop padded_encoded_text i b =
     (if i < length padded_encoded_text then
        (let byte = take 8 (drop i padded_encoded_text)
         in case int_base2 byte of
              Inl e \<Rightarrow> Inl e
            | Inr v \<Rightarrow>
                if 0 \<le> v \<and> v < 256
                then get_byte_array_loop padded_encoded_text (i + 8) (b @ [v])
                else Inl ValueError)
      else Inr b)"
  by pat_completeness auto
termination
  by (relation "measure (\<lambda>(s, i, b). length s - i)") auto

declare get_byte_array_loop.simps [simp del]

definition get_byte_array :: "string \<Rightarrow> error + int list" where
  "get_byte_array padded_encoded_text = get_byte_array_loop padded_encoded_text 0 []"

section \<open>Compression\<close>

text \<open>
  \<open>str.isspace\<close> on the code points below 256: tab to carriage return, the four
  separators 28 to 31, the space, and the code points 133 and 160. \<open>text.rstrip()\<close>
  removes the longest suffix of such characters.
\<close>

definition isspace :: "char \<Rightarrow> bool" where
  "isspace c =
     (let n = (of_char c :: nat)
      in (9 \<le> n \<and> n \<le> 13) \<or> (28 \<le> n \<and> n \<le> 32) \<or> n = 133 \<or> n = 160)"

definition rstrip :: "string \<Rightarrow> string" where
  "rstrip s = rev (dropWhile isspace (rev s))"

text \<open>
  The body of \<open>compress\<close> between reading the input file and writing the output
  file: the argument is what \<open>file.read()\<close> returned, the result is the byte array
  handed to \<open>output.write\<close>, with the object state.
\<close>

definition compress :: "nat \<Rightarrow> HuffmanCoding \<Rightarrow> string \<Rightarrow> error + int list \<times> HuffmanCoding" where
  "compress depth self file_text =
     (let text = rstrip file_text;
          frequency = make_frequency_dict text;
          self = make_heap self frequency
      in case merge_codes self of
           Inl e \<Rightarrow> Inl e
         | Inr self \<Rightarrow>
             (case make_codes depth self of
                Inl e \<Rightarrow> Inl e
              | Inr self \<Rightarrow>
                  (case get_encoded_text self text of
                     Inl e \<Rightarrow> Inl e
                   | Inr encode_text \<Rightarrow>
                       (let padding_encoded_text = pad_encoded_text encode_text
                        in case get_byte_array padding_encoded_text of
                             Inl e \<Rightarrow> Inl e
                           | Inr b \<Rightarrow> Inr (b, self)))))"



section \<open>Decoding\<close>

text \<open>
  \<open>decode_text\<close>: the \<open>return\<close> stands inside the body of the \<open>for\<close> loop, so the
  function returns at the end of the first iteration. On the empty string the body
  never runs and the function falls off its end, returning Python's \<open>None\<close>
  (\<open>None\<close> of the option type).
\<close>

definition decode_text :: "HuffmanCoding \<Rightarrow> string \<Rightarrow> string option" where
  "decode_text self encoded_text =
     (case encoded_text of
        [] \<Rightarrow> None
      | b # rest \<Rightarrow>
          (let current_code = [] @ [b];
               decoded_text = []
           in case reverse_mapping self current_code of
                Some character \<Rightarrow> Some (decoded_text @ [character])
              | None \<Rightarrow> Some decoded_text))"

text \<open>
  The read loop of \<open>decompress\<close>: each byte of the file becomes
  \<open>bin(byte).rjust(8, '0')\<close>, appended to \<open>bit_string\<close>.
\<close>

fun decompress_bit_string :: "int list \<Rightarrow> string \<Rightarrow> string" where
  "decompress_bit_string [] bs = bs"
| "decompress_bit_string (byte # file) bs =
     (let bits = rjust 8 CHR ''0'' (bin byte)
      in decompress_bit_string file (bs @ bits))"

section \<open>The invariants of the tree\<close>

text \<open>
  The two properties of a tree that the frequency claims are about. A leaf is a
  node without children. \<open>weights_ok\<close>: the frequency of every node with two
  children is the sum of the frequencies of the children (no node of a tree has one
  child only). \<open>leaf_sum\<close>: the sum of the frequencies of the leaves.
\<close>

fun weights_ok :: "HeapNode \<Rightarrow> bool" where
  "weights_ok (HeapNode c f None None) = True"
| "weights_ok (HeapNode c f (Some l) (Some r)) = (f = freq l + freq r \<and> weights_ok l \<and> weights_ok r)"
| "weights_ok (HeapNode c f _ _) = False"

fun leaf_sum :: "HeapNode \<Rightarrow> int" where
  "leaf_sum (HeapNode c f None None) = f"
| "leaf_sum (HeapNode c f l r) =
     (case l of None \<Rightarrow> 0 | Some a \<Rightarrow> leaf_sum a) + (case r of None \<Rightarrow> 0 | Some b \<Rightarrow> leaf_sum b)"

text \<open>
  For a heap: every tree on it satisfies \<open>weights_ok\<close>; the sum of the frequencies
  of its roots.
\<close>

definition heap_inv :: "HeapNode list \<Rightarrow> bool" where
  "heap_inv h = list_all weights_ok h"

definition total_freq :: "HeapNode list \<Rightarrow> int" where
  "total_freq h = sum_mset (image_mset freq (mset h))"

section \<open>Properties\<close>

text \<open>On a non-empty bit string \<open>int_base2\<close> reads the digits.\<close>

lemma digits_ok_bits: "bit_string s \<Longrightarrow> s \<noteq> [] \<Longrightarrow> digits_ok s"
  by (induction s rule: digits_ok.induct) (auto simp: bit_string_def is_bit_def)

lemma is_bit_facts:
  "is_bit c \<Longrightarrow> to_ascii c = Some c \<and> \<not> c_isspace c \<and> c \<noteq> CHR ''_'' \<and> c \<noteq> CHR ''+''
     \<and> c \<noteq> CHR ''-'' \<and> c \<noteq> CHR ''b'' \<and> c \<noteq> CHR ''B''"
  by (auto simp: is_bit_def to_ascii_def c_isspace_def)

lemma int_base2_bit_string:
  assumes "bit_string s" and "s \<noteq> []"
  shows "int_base2 s = Inr (int_digits 0 s)"
proof -
  have bits: "\<And>c. c \<in> set s \<Longrightarrow> is_bit c" using assms(1) by (simp add: bit_string_def list_all_iff)
  have conv: "list_all (\<lambda>c. to_ascii c \<noteq> None) s"
    using bits is_bit_facts by (auto simp: list_all_iff)
  have m: "map (\<lambda>c. the (to_ascii c)) s = s"
    using bits is_bit_facts by (intro map_idI) auto
  obtain c cs where s: "s = c # cs" using assms(2) by (cases s) auto
  have c: "is_bit c" using bits s by simp
  have d1: "dropWhile c_isspace s = s" using c is_bit_facts by (simp add: s)
  have l: "is_bit (last s)" using bits assms(2) by simp
  have d2: "dropWhile c_isspace (rev s) = rev s"
    using l is_bit_facts assms(2) by (cases "rev s") (auto simp: last_rev [symmetric] hd_rev)
  have sg: "skip_sign s = (1, s)" using c is_bit_facts by (simp add: s)
  have pf: "skip_0b s = s"
  proof (cases cs)
    case Nil
    then show ?thesis by (simp add: s)
  next
    case (Cons x r)
    then have "is_bit x" using bits s by simp
    then show ?thesis using is_bit_facts by (auto simp: s Cons)
  qed
  have f: "filter (\<lambda>c. c \<noteq> CHR ''_'') s = s"
    using bits is_bit_facts by (auto simp: filter_id_conv)
  show ?thesis
    using conv by (simp add: int_base2_def m d1 d2 sg pf f digits_ok_bits [OF assms])
qed

lemma slice_to_zero: "slice_to 0 s = []"
  by (simp add: slice_to_def)

text \<open>
  C10. A bit string whose first eight bits encode the value 0 is reduced to the empty
  string by \<open>remove_padding\<close>: after the header is cut off, the slice \<open>[:-0]\<close> is
  \<open>[:0]\<close> and keeps nothing, whatever data bits follow.
\<close>

theorem remove_padding_zero_header:
  assumes "bit_string bs" and "int_base2 (take 8 bs) = Inr 0"
  shows "remove_padding bs = Inr []"
  using assms by (simp add: remove_padding_def slice_to_zero)

theorem remove_padding_zero_header_witness:
  "bit_string ''0000000010110111'' \<and> int_base2 (take 8 ''0000000010110111'') = Inr 0
   \<and> remove_padding ''0000000010110111'' = Inr []"
proof -
  have b: "bit_string ''0000000010110111''"
    by (simp add: bit_string_def is_bit_def)
  have h: "int_base2 (take 8 ''0000000010110111'') = Inr 0"
    by code_simp
  show ?thesis using b h remove_padding_zero_header [OF b h] by simp
qed

subsection \<open>Encoding\<close>

lemma get_encoded_text_loop_eq:
  "get_encoded_text_loop self acc text =
     (if list_all (\<lambda>c. codes self c \<noteq> None) text
      then Inr (acc @ concat (map (\<lambda>c. the (codes self c)) text))
      else Inl KeyError)"
  by (induction "text" arbitrary: acc) (auto split: option.splits)

text \<open>
  C8. A text with a symbol that has no entry in the code table makes
  \<open>get_encoded_text\<close> fail (\<open>KeyError\<close>, no output); a text whose symbols all have
  a code is encoded as the concatenation of their codes in the order of the text.
\<close>

theorem get_encoded_text_KeyError_or_concat:
  "((\<exists>c \<in> set text. codes self c = None) \<longrightarrow> get_encoded_text self text = Inl KeyError) \<and>
   ((\<forall>c \<in> set text. codes self c \<noteq> None) \<longrightarrow>
      get_encoded_text self text = Inr (concat (map (\<lambda>c. the (codes self c)) text)))"
  by (auto simp: get_encoded_text_def get_encoded_text_loop_eq list_all_iff)

theorem get_encoded_text_KeyError_or_concat_witness:
  "codes (init\<lparr>codes := [CHR ''a'' \<mapsto> ''0'', CHR ''b'' \<mapsto> ''10'']\<rparr>) CHR ''d'' = None \<and>
   get_encoded_text (init\<lparr>codes := [CHR ''a'' \<mapsto> ''0'', CHR ''b'' \<mapsto> ''10'']\<rparr>) ''ad'' = Inl KeyError \<and>
   list_all (\<lambda>c. codes (init\<lparr>codes := [CHR ''a'' \<mapsto> ''0'', CHR ''b'' \<mapsto> ''10'']\<rparr>) c \<noteq> None) ''ab'' \<and>
   get_encoded_text (init\<lparr>codes := [CHR ''a'' \<mapsto> ''0'', CHR ''b'' \<mapsto> ''10'']\<rparr>) ''ab'' = Inr ''010''"
  using get_encoded_text_KeyError_or_concat
          [of "''ad''" "init\<lparr>codes := [CHR ''a'' \<mapsto> ''0'', CHR ''b'' \<mapsto> ''10'']\<rparr>"]
        get_encoded_text_KeyError_or_concat
          [of "''ab''" "init\<lparr>codes := [CHR ''a'' \<mapsto> ''0'', CHR ''b'' \<mapsto> ''10'']\<rparr>"]
  by simp

subsection \<open>Padding and its removal\<close>

lemma append_zeros_eq: "append_zeros n s = s @ replicate n CHR ''0''"
  by (induction n arbitrary: s) (auto simp: replicate_append_same)

lemma extra_padding_range: "1 \<le> extra_padding_of e \<and> extra_padding_of e \<le> 8"
  by (simp add: extra_padding_of_def)

lemma format_08b_values:
  "format_08b 1 = ''00000001''" "format_08b 2 = ''00000010''" "format_08b 3 = ''00000011''"
  "format_08b 4 = ''00000100''" "format_08b 5 = ''00000101''" "format_08b 6 = ''00000110''"
  "format_08b 7 = ''00000111''" "format_08b 8 = ''00001000''"
  by code_simp+

lemma int_base2_values:
  "int_base2 ''00000001'' = Inr 1" "int_base2 ''00000010'' = Inr 2" "int_base2 ''00000011'' = Inr 3"
  "int_base2 ''00000100'' = Inr 4" "int_base2 ''00000101'' = Inr 5" "int_base2 ''00000110'' = Inr 6"
  "int_base2 ''00000111'' = Inr 7" "int_base2 ''00001000'' = Inr 8"
  by code_simp+

lemma format_08b_small:
  assumes "1 \<le> p" "p \<le> 8"
  shows "length (format_08b p) = 8 \<and> bit_string (format_08b p) \<and> int_base2 (format_08b p) = Inr p"
proof -
  have "p = 1 \<or> p = 2 \<or> p = 3 \<or> p = 4 \<or> p = 5 \<or> p = 6 \<or> p = 7 \<or> p = 8"
    using assms by presburger
  then show ?thesis
    by (elim disjE)
       (simp_all add: format_08b_values int_base2_values bit_string_def is_bit_def)
qed

text \<open>
  C2, as the code has it. For an encoded bit sequence of length \<open>L\<close>,
  \<open>pad_encoded_text\<close> computes \<open>p = 8 - L mod 8\<close>, so \<open>1 \<le> p \<le> 8\<close> and
  \<open>(L + p) mod 8 = 0\<close>; the result is the eight-bit binary numeral of \<open>p\<close>, then
  the sequence, then exactly \<open>p\<close> zero bits. When \<open>L mod 8 = 0\<close> the count is 8:
  a whole byte of padding is added.
\<close>

theorem pad_encoded_text_layout:
  "1 \<le> extra_padding_of e \<and> extra_padding_of e \<le> 8 \<and>
   (int (length e) + extra_padding_of e) mod 8 = 0 \<and>
   pad_encoded_text e = format_08b (extra_padding_of e) @ e @ replicate (nat (extra_padding_of e)) CHR ''0'' \<and>
   length (format_08b (extra_padding_of e)) = 8 \<and>
   int_base2 (format_08b (extra_padding_of e)) = Inr (extra_padding_of e) \<and>
   (int (length e) mod 8 = 0 \<longrightarrow> extra_padding_of e = 8)"
proof -
  have r: "1 \<le> extra_padding_of e" "extra_padding_of e \<le> 8"
    using extra_padding_range [of e] by simp_all
  have m: "(int (length e) + extra_padding_of e) mod 8 = 0"
    by (simp add: extra_padding_of_def) presburger
  have z: "int (length e) mod 8 = 0 \<longrightarrow> extra_padding_of e = 8"
    by (simp add: extra_padding_of_def)
  have p: "pad_encoded_text e =
      format_08b (extra_padding_of e) @ e @ replicate (nat (extra_padding_of e)) CHR ''0''"
    by (simp add: pad_encoded_text_def Let_def append_zeros_eq)
  have f: "length (format_08b (extra_padding_of e)) = 8"
    "int_base2 (format_08b (extra_padding_of e)) = Inr (extra_padding_of e)"
    using format_08b_small [OF r] by blast+
  show ?thesis by (intro conjI r m z p f)
qed

theorem pad_encoded_text_layout_witness:
  "int (length ''10101010'') mod 8 = 0 \<and> extra_padding_of ''10101010'' = 8 \<and>
   pad_encoded_text ''10101010'' = ''000010001010101000000000''"
proof -
  have h: "int (length ''10101010'') mod 8 = 0" by simp
  from pad_encoded_text_layout [of "''10101010''"] h
  have e: "extra_padding_of ''10101010'' = 8" by blast
  from pad_encoded_text_layout [of "''10101010''"]
  have "pad_encoded_text ''10101010'' =
        format_08b (extra_padding_of ''10101010'') @ ''10101010'' @
        replicate (nat (extra_padding_of ''10101010'')) CHR ''0''" by blast
  then have "pad_encoded_text ''10101010'' = ''000010001010101000000000''"
    by (simp add: e format_08b_values eval_nat_numeral)
  with h e show ?thesis by blast
qed

text \<open>
  The claim that the count is at most 7, and 0 for a sequence of eight bits, fails on
  the sequence \<open>10101010\<close>: the header is 8 and eight zero bits follow.
\<close>

theorem pad_encoded_text_pads_eight:
  "\<not> (extra_padding_of ''10101010'' \<le> 7) \<and>
   pad_encoded_text ''10101010'' = ''000010001010101000000000''"
  by (simp add: pad_encoded_text_def extra_padding_of_def format_08b_values eval_nat_numeral)

text \<open>Removing the padding undoes adding it, for every encoded text.\<close>

lemma remove_padding_pad_encoded_text: "remove_padding (pad_encoded_text e) = Inr e"
proof -
  define p where "p = extra_padding_of e"
  define hd8 where "hd8 = format_08b p"
  have r: "1 \<le> p" "p \<le> 8" using extra_padding_range [of e] by (simp_all add: p_def)
  from format_08b_small [OF r]
  have len: "length hd8 = 8" and val: "int_base2 hd8 = Inr p" by (simp_all add: hd8_def)
  have pad: "pad_encoded_text e = hd8 @ e @ replicate (nat p) CHR ''0''"
    by (simp add: pad_encoded_text_def Let_def append_zeros_eq p_def hd8_def)
  have t: "take 8 (hd8 @ e @ replicate (nat p) CHR ''0'') = hd8"
    using len by simp
  have d: "drop 8 (hd8 @ e @ replicate (nat p) CHR ''0'') = e @ replicate (nat p) CHR ''0''"
    using len by simp
  have n: "nat (int (length e) + int (nat p) - p) = length e"
    using r by simp
  have sl: "slice_to (- 1 * p) (e @ replicate (nat p) CHR ''0'') = e"
    using r n by (simp add: slice_to_def)
  show ?thesis
    by (simp only: pad remove_padding_def Let_def t d val sl sum.case)
qed

subsection \<open>Decoding\<close>

text \<open>\<open>decode_text\<close> never returns more than one symbol.\<close>

lemma decode_text_at_most_one:
  "decode_text self encoded_text = Some decoded \<Longrightarrow> length decoded \<le> 1"
  by (auto simp: decode_text_def split: list.splits option.splits)

text \<open>
  C1 fails on the code. With the code table \<open>a \<mapsto> 0, b \<mapsto> 10, c \<mapsto> 11\<close> and its
  inverse, the text \<open>aaabbc\<close> is encoded as \<open>000101011\<close>, padding is added and
  removed without loss, and \<open>decode_text\<close> returns \<open>a\<close>: it returns at the end of
  the first iteration of its loop.
\<close>

theorem decode_text_returns_after_first_bit:
  "get_encoded_text
     (init\<lparr>codes := [CHR ''a'' \<mapsto> ''0'', CHR ''b'' \<mapsto> ''10'', CHR ''c'' \<mapsto> ''11''],
            reverse_mapping := [''0'' \<mapsto> CHR ''a'', ''10'' \<mapsto> CHR ''b'', ''11'' \<mapsto> CHR ''c'']\<rparr>)
     ''aaabbc'' = Inr ''000101011'' \<and>
   remove_padding (pad_encoded_text ''000101011'') = Inr ''000101011'' \<and>
   decode_text
     (init\<lparr>codes := [CHR ''a'' \<mapsto> ''0'', CHR ''b'' \<mapsto> ''10'', CHR ''c'' \<mapsto> ''11''],
            reverse_mapping := [''0'' \<mapsto> CHR ''a'', ''10'' \<mapsto> CHR ''b'', ''11'' \<mapsto> CHR ''c'']\<rparr>)
     ''000101011'' = Some ''a''"
  by (simp add: get_encoded_text_def decode_text_def remove_padding_pad_encoded_text)

subsection \<open>The code table is never completed\<close>

lemma make_codes_helper_error:
  "make_codes_helper depth self node cc = Inl e \<Longrightarrow> e = RecursionError"
proof (induction depth self node cc rule: make_codes_helper.induct)
  case (3 depth self node current_code)
  then show ?case by (auto simp: Let_def split: sum.splits option.splits)
qed simp_all

lemma make_codes_helper_never_returns:
  "make_codes_helper depth self (Some node) cc = Inl RecursionError"
proof (induction depth arbitrary: self cc)
  case 0
  show ?case by simp
next
  case (Suc depth)
  show ?case
    using Suc.IH by (auto simp: Let_def split: sum.splits option.splits dest: make_codes_helper_error)
qed

text \<open>
  C3 fails on the code. Whatever the recursion limit, \<open>make_codes\<close> does not return
  a code table: on an empty heap the pop raises \<open>IndexError\<close>, and on every other
  heap the traversal calls itself on the same node with a longer path until the
  recursion limit is hit, since the second recursive call is on \<open>node\<close> and not on
  \<open>node.right\<close>.
\<close>

theorem make_codes_never_returns:
  "make_codes depth self = Inl (if heap self = [] then IndexError else RecursionError)"
proof (cases "heap self = []")
  case True
  then show ?thesis by (simp add: make_codes_def heappop_empty)
next
  case False
  from heappop_nonempty [OF this] obtain x h' where "heappop (heap self) = Inr (x, h')" by blast
  then show ?thesis using False by (simp add: make_codes_def make_codes_helper_never_returns)
qed

subsection \<open>Bytes\<close>

lemma bin_not_bit_string: "\<not> bit_string (rjust 8 CHR ''0'' (bin n))"
  by (simp add: bit_string_def rjust_def bin_def is_bit_def)

lemma decompress_bit_string_acc:
  "decompress_bit_string file bs = bs @ decompress_bit_string file []"
proof (induction "file" arbitrary: bs)
  case Nil
  show ?case by simp
next
  case (Cons byte rest)
  show ?case
    using Cons.IH [of "bs @ rjust 8 CHR ''0'' (bin byte)"] Cons.IH [of "rjust 8 CHR ''0'' (bin byte)"]
    by (simp add: Let_def)
qed

lemma get_byte_array_example: "get_byte_array ''0000010100000011'' = Inr [5, 3]"
  by code_simp

lemma decompress_bit_string_example: "decompress_bit_string [5, 3] [] = ''0000b10100000b11''"
  by code_simp

text \<open>
  C7 fails on the code. The padded bit string \<open>0000010100000011\<close> is packed into the
  bytes 5 and 3, most significant bit first; the read loop of \<open>decompress\<close> turns
  them into \<open>0000b10100000b11\<close>, since \<open>bin(byte)\<close> keeps its prefix \<open>0b\<close>. For
  every non-empty file the string read back has the letter \<open>b\<close> in it, so it is
  never the bit string that was packed.
\<close>

theorem decompress_bit_string_not_inverse:
  "get_byte_array ''0000010100000011'' = Inr [5, 3] \<and>
   decompress_bit_string [5, 3] [] = ''0000b10100000b11'' \<and>
   \<not> bit_string (decompress_bit_string (byte # file) [])"
proof -
  have "decompress_bit_string (byte # file) [] =
        rjust 8 CHR ''0'' (bin byte) @ decompress_bit_string file []"
    using decompress_bit_string_acc [of "file" "rjust 8 CHR ''0'' (bin byte)"] by (simp add: Let_def)
  then have "\<not> bit_string (decompress_bit_string (byte # file) [])"
    using bin_not_bit_string [of byte] by (simp add: bit_string_def)
  then show ?thesis using get_byte_array_example decompress_bit_string_example by simp
qed

subsection \<open>The empty text\<close>

lemma make_frequency_dict_Nil: "make_frequency_dict [] = []"
  by (simp add: make_frequency_dict_def)

lemma make_heap_Nil: "make_heap self [] = self"
  by (simp add: make_heap_def)

lemma merge_codes_short: "length (heap self) \<le> 1 \<Longrightarrow> merge_codes self = Inr self"
  by (subst merge_codes.simps) simp

lemma make_codes_empty: "heap self = [] \<Longrightarrow> make_codes depth self = Inl IndexError"
  by (simp add: make_codes_def heappop_empty)

text \<open>
  C4, as the code has it. When the text is empty after \<open>rstrip\<close> and the heap of
  the object is empty (as \<open>__init__\<close> leaves it), the frequency table is empty,
  \<open>make_heap\<close> and \<open>merge_codes\<close> return normally with the heap still empty, and
  \<open>make_codes\<close> then pops from the empty heap: \<open>compress\<close> fails with \<open>IndexError\<close>
  and produces no byte array.
\<close>

theorem compress_empty_IndexError:
  assumes "rstrip file_text = []" and "heap self = []"
  shows "make_frequency_dict (rstrip file_text) = [] \<and>
         make_heap self (make_frequency_dict (rstrip file_text)) = self \<and>
         merge_codes self = Inr self \<and>
         heappop (heap self) = Inl IndexError \<and>
         compress depth self file_text = Inl IndexError"
  using assms
  by (simp add: make_frequency_dict_Nil make_heap_Nil merge_codes_short make_codes_empty
        heappop_empty compress_def)

theorem compress_empty_IndexError_witness:
  "rstrip ''  '' = [] \<and> heap init = [] \<and> merge_codes init = Inr init \<and>
   heappop (heap init) = Inl IndexError \<and> compress 1000 init ''  '' = Inl IndexError"
proof -
  have a: "rstrip ''  '' = []" by (simp add: rstrip_def isspace_def)
  have b: "heap init = []" by (simp add: init_def)
  from compress_empty_IndexError [OF a b, of 1000] a b show ?thesis by simp
qed

text \<open>
  The claim that the tree builder rejects the empty table fails on the empty text:
  \<open>merge_codes\<close> returns the object unchanged, and the error is the \<open>IndexError\<close> of
  the pop in \<open>make_codes\<close>.
\<close>

theorem compress_empty_pops_empty_heap:
  "merge_codes (make_heap init (make_frequency_dict [])) = Inr init \<and>
   make_codes 1000 init = Inl IndexError \<and>
   compress 1000 init [] = Inl IndexError"
proof -
  have b: "heap init = []" by (simp add: init_def)
  have r: "rstrip [] = []" by (simp add: rstrip_def)
  show ?thesis
    using b r
    by (simp add: make_frequency_dict_Nil make_heap_Nil merge_codes_short make_codes_empty compress_def)
qed

subsection \<open>Trailing whitespace\<close>





subsection \<open>Frequencies\<close>

lemma map_of_dict_set_same: "map_of (dict_set k v d) k = Some v"
  by (induction d) auto

lemma sum_dict_set_new:
  "map_of d k = None \<Longrightarrow>
   sum_list (map snd (dict_set k v d)) = sum_list (map snd d) + (v :: int)"
  by (induction d) (auto split: if_splits)

lemma sum_dict_set_old:
  "map_of d k = Some v0 \<Longrightarrow>
   sum_list (map snd (dict_set k v d)) = sum_list (map snd d) - v0 + (v :: int)"
  by (induction d) (auto split: if_splits)

lemma keys_dict_set:
  "map fst (dict_set k v d) = (if k \<in> set (map fst d) then map fst d else map fst d @ [k])"
  by (induction d) auto

lemma sum_count_char: "sum_list (map snd (count_char ch d)) = sum_list (map snd d) + 1"
proof (cases "map_of d ch")
  case None
  then show ?thesis
    by (simp add: count_char_def Let_def map_of_dict_set_same
          sum_dict_set_old [OF map_of_dict_set_same] sum_dict_set_new)
next
  case (Some v0)
  then show ?thesis by (simp add: count_char_def Let_def sum_dict_set_old)
qed

lemma keys_count_char:
  "map fst (count_char ch d) = (if ch \<in> set (map fst d) then map fst d else map fst d @ [ch])"
proof (cases "map_of d ch")
  case None
  then have n: "ch \<notin> set (map fst d)" by (simp add: map_of_eq_None_iff)
  have "map fst (dict_set ch 0 d) = map fst d @ [ch]" using n by (simp only: keys_dict_set if_False)
  then have "map fst (dict_set ch (the (map_of (dict_set ch 0 d) ch) + 1) (dict_set ch 0 d))
             = map fst d @ [ch]"
    by (simp add: keys_dict_set [of ch _ "dict_set ch 0 d"])
  then show ?thesis using None n by (simp add: count_char_def Let_def)
next
  case (Some v0)
  then have "ch \<in> set (map fst d)" by (metis map_of_eq_None_iff option.distinct(1) set_map)
  then show ?thesis using Some by (simp add: count_char_def Let_def keys_dict_set)
qed

lemma sum_fold_count_char:
  "sum_list (map snd (fold count_char xs d)) = sum_list (map snd d) + int (length xs)"
  by (induction xs arbitrary: d) (simp_all add: sum_count_char)

lemma distinct_fold_count_char:
  "distinct (map fst d) \<Longrightarrow> distinct (map fst (fold count_char xs d))"
  by (induction xs arbitrary: d) (simp_all add: keys_count_char)

lemma make_frequency_dict_sum:
  "sum_list (map snd (make_frequency_dict xs)) = int (length xs)"
  by (simp add: make_frequency_dict_def sum_fold_count_char)

lemma make_frequency_dict_distinct: "distinct (map fst (make_frequency_dict xs))"
  by (simp add: make_frequency_dict_def distinct_fold_count_char)

lemma make_frequency_dict_nonempty: "xs \<noteq> [] \<Longrightarrow> make_frequency_dict xs \<noteq> []"
  using make_frequency_dict_sum [of xs] by (cases "make_frequency_dict xs") auto

lemma lookup_keys:
  "distinct (map fst d) \<Longrightarrow> map (\<lambda>k. the (map_of d k)) (map fst d) = map snd d"
proof (induction d)
  case Nil
  show ?case by simp
next
  case (Cons p d)
  obtain k v where p: "p = (k, v)" by (cases p)
  have nk: "k \<notin> set (map fst d)" and dd: "distinct (map fst d)"
    using Cons.prems by (simp_all add: p)
  have "\<And>x. x \<in> set (map fst d) \<Longrightarrow> the (map_of ((k, v) # d) x) = the (map_of d x)"
    using nk by auto
  then have "map (\<lambda>x. the (map_of ((k, v) # d) x)) (map fst d)
             = map (\<lambda>x. the (map_of d x)) (map fst d)"
    by (intro map_cong refl)
  also have "\<dots> = map snd d" by (rule Cons.IH [OF dd])
  finally show ?case by (simp add: p)
qed

subsection \<open>The heap while the tree is built\<close>

lemma set_heappush: "set (heappush h x) = insert x (set h)"
  by (metis mset_heappush set_mset_add_mset_insert set_mset_mset)

lemma total_freq_heappush: "total_freq (heappush h x) = freq x + total_freq h"
  by (simp add: total_freq_def mset_heappush)

lemma heap_inv_heappush: "heap_inv (heappush h x) = (weights_ok x \<and> heap_inv h)"
  by (auto simp: heap_inv_def list_all_iff set_heappush)

lemma heappop_facts:
  assumes "heappop h = Inr (x, h')"
  shows "total_freq h = freq x + total_freq h'" and "heap_inv h = (weights_ok x \<and> heap_inv h')"
proof -
  have "h \<noteq> []" using assms by (auto simp: heappop_def)
  from heappop_nonempty [OF this] assms have m: "mset h = add_mset x (mset h')" by auto
  show "total_freq h = freq x + total_freq h'" by (simp add: total_freq_def m)
  have "set h = insert x (set h')"
    by (metis m set_mset_add_mset_insert set_mset_mset)
  then show "heap_inv h = (weights_ok x \<and> heap_inv h')"
    by (auto simp: heap_inv_def list_all_iff)
qed

lemma fold_push_key:
  "heap_inv (heap self) \<Longrightarrow>
   heap_inv (heap (fold (push_key fr) ks self)) \<and>
   total_freq (heap (fold (push_key fr) ks self)) =
     total_freq (heap self) + sum_list (map (\<lambda>k. the (map_of fr k)) ks) \<and>
   length (heap (fold (push_key fr) ks self)) = length (heap self) + length ks \<and>
   codes (fold (push_key fr) ks self) = codes self \<and>
   reverse_mapping (fold (push_key fr) ks self) = reverse_mapping self"
proof (induction ks arbitrary: self)
  case Nil
  then show ?case by simp
next
  case (Cons k ks)
  have "heap_inv (heap (push_key fr k self))"
    using Cons.prems by (simp add: push_key_def heap_inv_heappush)
  from Cons.IH [OF this] show ?case
    by (simp add: push_key_def total_freq_heappush)
qed

lemma make_heap_facts:
  assumes "heap_inv (heap self)" and "distinct (map fst fr)"
  shows "heap_inv (heap (make_heap self fr))"
    and "total_freq (heap (make_heap self fr)) = total_freq (heap self) + sum_list (map snd fr)"
    and "length (heap (make_heap self fr)) = length (heap self) + length fr"
    and "codes (make_heap self fr) = codes self"
    and "reverse_mapping (make_heap self fr) = reverse_mapping self"
proof -
  note f = fold_push_key [OF assms(1), of fr "map fst fr"]
  have k: "sum_list (map (\<lambda>k. the (map_of fr k)) (map fst fr)) = sum_list (map snd fr)"
    by (simp only: lookup_keys [OF assms(2)])
  show "heap_inv (heap (make_heap self fr))" unfolding make_heap_def using f by blast
  have "total_freq (heap (make_heap self fr)) =
        total_freq (heap self) + sum_list (map (\<lambda>k. the (map_of fr k)) (map fst fr))"
    unfolding make_heap_def using f by blast
  then show "total_freq (heap (make_heap self fr)) = total_freq (heap self) + sum_list (map snd fr)"
    by (simp only: k)
  have "length (heap (make_heap self fr)) = length (heap self) + length (map fst fr)"
    unfolding make_heap_def using f by blast
  then show "length (heap (make_heap self fr)) = length (heap self) + length fr"
    by (simp only: length_map)
  show "codes (make_heap self fr) = codes self" unfolding make_heap_def using f by blast
  show "reverse_mapping (make_heap self fr) = reverse_mapping self"
    unfolding make_heap_def using f by blast
qed

lemma weights_ok_leaf_sum: "weights_ok n \<Longrightarrow> leaf_sum n = freq n"
  by (induction n rule: weights_ok.induct) auto

lemma merge_codes_facts:
  "heap_inv (heap self) \<Longrightarrow>
   \<exists>self'. merge_codes self = Inr self' \<and> heap_inv (heap self') \<and>
     total_freq (heap self') = total_freq (heap self) \<and>
     length (heap self') = min 1 (length (heap self))"
proof (induction self rule: merge_codes.induct)
  case (1 self)
  show ?case
  proof (cases "length (heap self) > 1")
    case False
    then show ?thesis using "1.prems" by (subst merge_codes.simps) auto
  next
    case True
    then have ne: "heap self \<noteq> []" by auto
    from heappop_nonempty [OF ne] obtain node1 h1 where
      p1: "heappop (heap self) = Inr (node1, h1)" by blast
    have l1: "length (heap self) = Suc (length h1)" by (rule heappop_length [OF p1])
    then have "h1 \<noteq> []" using True by auto
    from heappop_nonempty [OF this] obtain node2 h2 where
      p2: "heappop h1 = Inr (node2, h2)" by blast
    have l2: "length h1 = Suc (length h2)" by (rule heappop_length [OF p2])
    define merged where "merged = HeapNode None (freq node1 + freq node2) (Some node1) (Some node2)"
    define self1 where "self1 = self\<lparr>heap := heappush h2 merged\<rparr>"
    have step: "merge_codes self = merge_codes self1"
      using True p1 p2 by (subst merge_codes.simps) (simp add: merged_def self1_def)
    have inv1: "weights_ok node1 \<and> heap_inv h1" using heappop_facts(2) [OF p1] "1.prems" by simp
    then have inv2: "weights_ok node2 \<and> heap_inv h2" using heappop_facts(2) [OF p2] by simp
    have m: "weights_ok merged" using inv1 inv2 by (simp add: merged_def)
    have inv: "heap_inv (heap self1)" using m inv2 by (simp add: self1_def heap_inv_heappush)
    have tot: "total_freq (heap self1) = total_freq (heap self)"
      using heappop_facts(1) [OF p1] heappop_facts(1) [OF p2]
      by (simp add: self1_def total_freq_heappush merged_def)
    have len: "length (heap self1) = Suc (length h2)" by (simp add: self1_def)
    from "1.IH" [OF True p1 refl p2 refl merged_def] inv
    obtain self' where r: "merge_codes self1 = Inr self'" "heap_inv (heap self')"
      "total_freq (heap self') = total_freq (heap self1)"
      "length (heap self') = min 1 (length (heap self1))"
      unfolding self1_def by blast
    show ?thesis using r step tot len l1 l2 by auto
  qed
qed

lemma heap_inv_init: "heap_inv (heap init)"
  by (simp add: heap_inv_def init_def)

lemma total_freq_init: "total_freq (heap init) = 0"
  by (simp add: total_freq_def init_def)

lemma total_freq_single: "total_freq [root] = freq root"
  by (simp add: total_freq_def)

text \<open>
  C6. The counts of the frequency table built by \<open>make_frequency_dict\<close> add up to
  the length of the text. \<open>merge_codes\<close>, run on the heap that \<open>make_heap\<close> fills
  from that table, returns; in every tree it leaves on the heap each node with
  children has the sum of their frequencies as its frequency, and the frequencies
  of the leaves add up to the frequency of the root. For a non-empty text exactly
  one tree is left, and the frequency of its root is the length of the text.
\<close>

theorem frequency_conservation:
  "sum_list (map snd (make_frequency_dict text)) = int (length text) \<and>
   (\<exists>self'. merge_codes (make_heap init (make_frequency_dict text)) = Inr self' \<and>
      list_all weights_ok (heap self') \<and>
      list_all (\<lambda>root. leaf_sum root = freq root) (heap self') \<and>
      (text \<noteq> [] \<longrightarrow>
         (\<exists>root. heap self' = [root] \<and> freq root = int (length text))))"
proof -
  define fr where "fr = make_frequency_dict text"
  define self0 where "self0 = make_heap init fr"
  have s: "sum_list (map snd fr) = int (length text)"
    by (simp add: fr_def make_frequency_dict_sum)
  have d: "distinct (map fst fr)" by (simp add: fr_def make_frequency_dict_distinct)
  note mh = make_heap_facts [OF heap_inv_init d]
  have inv0: "heap_inv (heap self0)" using mh(1) by (simp add: self0_def)
  have tot0: "total_freq (heap self0) = int (length text)"
    using mh(2) s by (simp add: self0_def total_freq_init)
  have len0: "length (heap self0) = length fr"
    using mh(3) by (simp add: self0_def init_def)
  from merge_codes_facts [OF inv0] obtain self' where
    r: "merge_codes self0 = Inr self'" "heap_inv (heap self')"
       "total_freq (heap self') = total_freq (heap self0)"
       "length (heap self') = min 1 (length (heap self0))" by blast
  have w: "list_all weights_ok (heap self')" using r(2) by (simp add: heap_inv_def)
  have l: "list_all (\<lambda>root. leaf_sum root = freq root) (heap self')"
    using w by (simp add: list_all_iff weights_ok_leaf_sum)
  have root: "text \<noteq> [] \<longrightarrow> (\<exists>root. heap self' = [root] \<and> freq root = int (length text))"
  proof
    assume "text \<noteq> []"
    then have "fr \<noteq> []" by (simp add: fr_def make_frequency_dict_nonempty)
    then have "length (heap self') = 1" using r(4) len0 by (cases fr) simp_all
    then obtain root where h: "heap self' = [root]"
      by (cases "heap self'") simp_all
    have "freq root = int (length text)"
      using r(3) tot0 by (simp add: h total_freq_single)
    with h show "\<exists>root. heap self' = [root] \<and> freq root = int (length text)" by blast
  qed
  show ?thesis using s r(1) w l root unfolding fr_def self0_def by blast
qed

theorem frequency_conservation_witness:
  "''aaabbc'' \<noteq> [] \<and> sum_list (map snd (make_frequency_dict ''aaabbc'')) = 6 \<and>
   (\<exists>self' root. merge_codes (make_heap init (make_frequency_dict ''aaabbc'')) = Inr self' \<and>
      heap self' = [root] \<and> freq root = 6)"
  using frequency_conservation [of "''aaabbc''"] by auto

subsection \<open>A text of one symbol\<close>

lemma heappush_empty: "heappush [] x = [x]"
  by (simp add: heappush_def siftdown_def siftdown_loop.simps)

lemma heappop_single: "heappop [x] = Inr (x, [])"
  by (simp add: heappop_def)

lemma make_codes_nonempty: "heap self \<noteq> [] \<Longrightarrow> make_codes depth self = Inl RecursionError"
proof -
  assume "heap self \<noteq> []"
  from heappop_nonempty [OF this] obtain x h' where "heappop (heap self) = Inr (x, h')" by blast
  then show ?thesis by (simp add: make_codes_def make_codes_helper_never_returns)
qed

text \<open>
  On a new object \<open>compress\<close> never reaches \<open>get_encoded_text\<close>: it fails in
  \<open>make_codes\<close> for every text.
\<close>

lemma compress_never_returns:
  "compress depth init file_text =
     Inl (if rstrip file_text = [] then IndexError else RecursionError)"
proof -
  define stripped where "stripped = rstrip file_text"
  define self0 where "self0 = make_heap init (make_frequency_dict stripped)"
  note mh = make_heap_facts [OF heap_inv_init make_frequency_dict_distinct [of stripped]]
  have inv0: "heap_inv (heap self0)" using mh(1) by (simp add: self0_def)
  have len0: "length (heap self0) = length (make_frequency_dict stripped)"
    using mh(3) by (simp add: self0_def init_def)
  from merge_codes_facts [OF inv0] obtain self' where
    r: "merge_codes self0 = Inr self'"
       "length (heap self') = min 1 (length (heap self0))" by blast
  have m: "merge_codes (make_heap init (make_frequency_dict (rstrip file_text))) = Inr self'"
    using r(1) by (simp add: self0_def stripped_def)
  have c: "\<And>E. make_codes depth self' = Inl E \<Longrightarrow> compress depth init file_text = Inl E"
    by (simp add: compress_def Let_def m)
  show ?thesis
  proof (cases "stripped = []")
    case True
    then have "heap self' = []" using r(2) len0 by (simp add: make_frequency_dict_Nil)
    then have "make_codes depth self' = Inl IndexError" by (rule make_codes_empty)
    from c [OF this] show ?thesis using True by (simp add: stripped_def)
  next
    case False
    then have "make_frequency_dict stripped \<noteq> []" by (rule make_frequency_dict_nonempty)
    then have "heap self' \<noteq> []" using r(2) len0 by (cases "make_frequency_dict stripped") auto
    then have "make_codes depth self' = Inl RecursionError" by (rule make_codes_nonempty)
    from c [OF this] show ?thesis using False by (simp add: stripped_def)
  qed
qed

text \<open>Every text that repeats one symbol has a frequency table of one entry.\<close>

lemma fold_count_char_replicate:
  "fold count_char (replicate n c) [(c, m)] = [(c, m + int n)]"
  by (induction n arbitrary: m) (simp_all add: count_char_def)

lemma make_frequency_dict_replicate:
  "make_frequency_dict (replicate (Suc n) c) = [(c, 1 + int n)]"
proof -
  have "count_char c [] = [(c, 1)]" by (simp add: count_char_def)
  then have "make_frequency_dict (replicate (Suc n) c) = fold count_char (replicate n c) [(c, 1)]"
    by (simp only: make_frequency_dict_def replicate_Suc fold_simps)
  then show ?thesis by (simp only: fold_count_char_replicate)
qed

text \<open>
  When the frequency table has exactly one entry, its count is the length of the
  text, the heap holds a single leaf with that symbol and count, the loop of
  \<open>merge_codes\<close> does not run and returns the heap unchanged, and the node that
  \<open>make_codes\<close> pops as the root is that leaf.
\<close>

lemma single_symbol_heap:
  assumes "make_frequency_dict text = [(c, k)]"
  shows "k = int (length text) \<and>
         make_heap init (make_frequency_dict text) = init\<lparr>heap := [HeapNode (Some c) k None None]\<rparr> \<and>
         merge_codes (init\<lparr>heap := [HeapNode (Some c) k None None]\<rparr>) =
           Inr (init\<lparr>heap := [HeapNode (Some c) k None None]\<rparr>) \<and>
         heappop [HeapNode (Some c) k None None] = Inr (HeapNode (Some c) k None None, [])"
proof -
  let ?leaf = "HeapNode (Some c) k None None"
  have 1: "k = int (length text)" using make_frequency_dict_sum [of "text"] assms by simp
  have 2: "make_heap init (make_frequency_dict text) = init\<lparr>heap := [?leaf]\<rparr>"
    by (simp add: assms make_heap_def push_key_def init_def heappush_empty)
  have 3: "merge_codes (init\<lparr>heap := [?leaf]\<rparr>) = Inr (init\<lparr>heap := [?leaf]\<rparr>)"
    by (rule merge_codes_short) simp
  have 4: "heappop [?leaf] = Inr (?leaf, [])" by (rule heappop_single)
  show ?thesis by (intro conjI 1 2 3 4)
qed

lemma make_frequency_dict_aaaa: "make_frequency_dict ''aaaa'' = [(CHR ''a'', 4)]"
  by (simp add: make_frequency_dict_def count_char_def)

text \<open>
  C5 fails on the code. For the text \<open>aaaa\<close> the frequency table has the one entry
  \<open>a \<mapsto> 4\<close>, the loop of \<open>merge_codes\<close> does not run and the root is the single
  leaf for \<open>a\<close>; but whatever the recursion limit, \<open>make_codes\<close> ends in
  \<open>RecursionError\<close> on that leaf, since \<open>make_codes_helper\<close> calls itself on the
  same node. No code table is returned, the symbol gets no code \<open>0\<close>, and
  \<open>compress\<close> fails, so nothing is there to be decoded.
\<close>

theorem single_symbol_no_code_table:
  "make_frequency_dict ''aaaa'' = [(CHR ''a'', 4)] \<and>
   make_heap init (make_frequency_dict ''aaaa'') =
     init\<lparr>heap := [HeapNode (Some CHR ''a'') 4 None None]\<rparr> \<and>
   merge_codes (init\<lparr>heap := [HeapNode (Some CHR ''a'') 4 None None]\<rparr>) =
     Inr (init\<lparr>heap := [HeapNode (Some CHR ''a'') 4 None None]\<rparr>) \<and>
   heappop [HeapNode (Some CHR ''a'') 4 None None] = Inr (HeapNode (Some CHR ''a'') 4 None None, []) \<and>
   make_codes depth (init\<lparr>heap := [HeapNode (Some CHR ''a'') 4 None None]\<rparr>) = Inl RecursionError \<and>
   compress depth init ''aaaa'' = Inl RecursionError"
proof -
  note h = single_symbol_heap [OF make_frequency_dict_aaaa]
  have "rstrip ''aaaa'' \<noteq> []" by (simp add: rstrip_def isspace_def)
  then have c: "compress depth init ''aaaa'' = Inl RecursionError"
    by (simp only: compress_never_returns if_False)
  have m: "make_codes depth (init\<lparr>heap := [HeapNode (Some CHR ''a'') 4 None None]\<rparr>)
           = Inl RecursionError"
    by (rule make_codes_nonempty) simp
  show ?thesis using h c m make_frequency_dict_aaaa by blast
qed

subsection \<open>What \<open>compress\<close> does with trailing whitespace\<close>





end
